theory Spec2Isabelle
  imports Complex_Main "HOL-Library.Multiset"
begin

section \<open>The separate-chaining hash table of \<^verbatim>\<open>src/hash_table.cpp\<close>\<close>

text \<open>
  The class \<^verbatim>\<open>itis::HashTable\<close> maps \<^verbatim>\<open>int\<close> keys to \<^verbatim>\<open>std::string\<close> values.
  Its state is a vector of buckets (each a \<^verbatim>\<open>std::list\<close> of pairs, since the code calls
  \<^verbatim>\<open>remove\<close> and \<^verbatim>\<open>emplace_back\<close> on it), the counter \<^verbatim>\<open>num_keys_\<close> and the threshold
  \<^verbatim>\<open>load_factor_\<close>.

  Conventions of the embedding:
  \<^item> \<^verbatim>\<open>int\<close> values are unbounded integers; no operation of the class comes near the
    32-bit limits unless the table holds more than \<open>2^31\<close> entries or buckets.
  \<^item> a \<^verbatim>\<open>double\<close> is a value of the type \<open>double\<close> below: a finite value (the real
    number it denotes), an infinity or NaN, compared as IEEE 754 compares them. The
    quotient \<^verbatim>\<open>static_cast<double>(num_keys_) / buckets_.size()\<close> is the exact quotient.
  \<^item> A thrown \<^verbatim>\<open>std::logic_error\<close> and an out-of-range bucket access (undefined behaviour
    of \<^verbatim>\<open>operator[]\<close>) are values of the type \<open>failure\<close>; every operation returns
    \<open>failure + result\<close>.
  \<^item> \<^verbatim>\<open>utils::hash\<close> and \<^verbatim>\<open>kGrowthCoefficient\<close> are defined in headers, outside
    \<^verbatim>\<open>hash_table.cpp\<close>, so every operation takes the hash function \<open>h\<close> and the growth
    coefficient \<open>g\<close> as parameters.
\<close>

subsection \<open>Data model\<close>

type_synonym Bucket = "(int \<times> string) list"

text \<open>The values of a \<^verbatim>\<open>double\<close>.\<close>

datatype double = Finite real | PosInf | NegInf | NaN

text \<open>
  The comparisons \<^verbatim>\<open>a <= b\<close> and \<^verbatim>\<open>a < b\<close> of two doubles: false whenever an operand
  is NaN. \<^verbatim>\<open>a >= b\<close> is \<open>double_le b a\<close> and \<^verbatim>\<open>a > b\<close> is \<open>double_less b a\<close>.
\<close>

fun double_le :: "double \<Rightarrow> double \<Rightarrow> bool" where
  "double_le NaN b = False"
| "double_le a NaN = False"
| "double_le (Finite x) (Finite y) = (x \<le> y)"
| "double_le NegInf b = True"
| "double_le a PosInf = True"
| "double_le a b = False"

fun double_less :: "double \<Rightarrow> double \<Rightarrow> bool" where
  "double_less NaN b = False"
| "double_less a NaN = False"
| "double_less (Finite x) (Finite y) = (x < y)"
| "double_less NegInf NegInf = False"
| "double_less NegInf b = True"
| "double_less PosInf PosInf = False"
| "double_less a PosInf = True"
| "double_less a b = False"

record HashTable =
  load_factor :: double
  num_keys :: int
  buckets :: "Bucket list"

datatype failure = logic_error string | undefined_behaviour

type_synonym hash_fn = "int \<Rightarrow> int \<Rightarrow> int"

text \<open>\<^verbatim>\<open>HashTable::hash\<close>: the hash of a key against the current number of buckets.\<close>

definition hash :: "hash_fn \<Rightarrow> HashTable \<Rightarrow> int \<Rightarrow> int" where
  "hash h t key = h key (int (length (buckets t)))"

text \<open>An index that \<^verbatim>\<open>buckets_[index]\<close> may be applied to.\<close>

definition in_range :: "Bucket list \<Rightarrow> int \<Rightarrow> bool" where
  "in_range bs i \<longleftrightarrow> 0 \<le> i \<and> i < int (length bs)"

subsection \<open>Construction\<close>

text \<open>
  Modelled from the spec: the member initialiser of \<^verbatim>\<open>num_keys_\<close>, which is written in
  the class declaration and not in \<^verbatim>\<open>hash_table.cpp\<close> (``On success: allocates exactly
  capacity empty buckets, size = 0'').
\<close>

definition initial_num_keys :: int where
  "initial_num_keys = 0"

text \<open>
  The constructor checks the capacity first, then the load factor with
  \<^verbatim>\<open>load_factor <= 0.0 || load_factor > 1.0\<close>, and allocates \<open>capacity\<close> empty buckets.
\<close>

definition HashTable_new :: "int \<Rightarrow> double \<Rightarrow> failure + HashTable" where
  "HashTable_new capacity lf =
     (if capacity \<le> 0 then
        Inl (logic_error ''hash table capacity must be greater than zero'')
      else if double_le lf (Finite 0) \<or> double_less (Finite 1) lf then
        Inl (logic_error ''hash table load factor must be in range [0...1]'')
      else
        Inr \<lparr>load_factor = lf, num_keys = initial_num_keys,
             buckets = replicate (nat capacity) []\<rparr>)"

subsection \<open>Search\<close>

text \<open>The range-for loop of \<^verbatim>\<open>Search\<close>: the value of the first pair with the key.\<close>

fun scan :: "Bucket \<Rightarrow> int \<Rightarrow> string option" where
  "scan [] key = None"
| "scan (pair # rest) key = (if fst pair = key then Some (snd pair) else scan rest key)"

definition Search :: "hash_fn \<Rightarrow> HashTable \<Rightarrow> int \<Rightarrow> failure + string option" where
  "Search h t key =
     (let index = hash h t key in
      if in_range (buckets t) index then Inr (scan (buckets t ! nat index) key)
      else Inl undefined_behaviour)"

definition ContainsKey :: "hash_fn \<Rightarrow> HashTable \<Rightarrow> int \<Rightarrow> failure + bool" where
  "ContainsKey h t key =
     (case Search h t key of Inl e \<Rightarrow> Inl e | Inr r \<Rightarrow> Inr (r \<noteq> None))"

subsection \<open>Put\<close>

text \<open>
  The first loop of \<^verbatim>\<open>Put\<close>: overwrite the value of the first pair with the key and
  return (\<open>Some\<close> of the updated bucket), or fall through the loop (\<open>None\<close>).
\<close>

fun overwrite :: "Bucket \<Rightarrow> int \<Rightarrow> string \<Rightarrow> Bucket option" where
  "overwrite [] key val = None"
| "overwrite (pair # rest) key val =
     (if fst pair = key then Some ((fst pair, val) # rest)
      else (case overwrite rest key val of
              None \<Rightarrow> None
            | Some rest' \<Rightarrow> Some (pair # rest')))"

text \<open>
  The body of the inner rehash loop: \<^verbatim>\<open>new_buckets[new_index].push_back(pair)\<close> with
  \<^verbatim>\<open>new_index = utils::hash(pair.first, new_buckets.size())\<close>.
\<close>

definition place :: "hash_fn \<Rightarrow> Bucket list \<Rightarrow> int \<times> string \<Rightarrow> failure + Bucket list" where
  "place h new_buckets pair =
     (let new_index = h (fst pair) (int (length new_buckets)) in
      if in_range new_buckets new_index then
        Inr (new_buckets[nat new_index := new_buckets ! nat new_index @ [pair]])
      else Inl undefined_behaviour)"

text \<open>The inner loop over the pairs of one old bucket.\<close>

fun rehash_bucket :: "hash_fn \<Rightarrow> Bucket \<Rightarrow> Bucket list \<Rightarrow> failure + Bucket list" where
  "rehash_bucket h [] new_buckets = Inr new_buckets"
| "rehash_bucket h (pair # rest) new_buckets =
     (case place h new_buckets pair of
        Inl e \<Rightarrow> Inl e
      | Inr nb \<Rightarrow> rehash_bucket h rest nb)"

text \<open>The outer loop over the old buckets.\<close>

fun rehash :: "hash_fn \<Rightarrow> Bucket list \<Rightarrow> Bucket list \<Rightarrow> failure + Bucket list" where
  "rehash h [] new_buckets = Inr new_buckets"
| "rehash h (bucket # rest) new_buckets =
     (case rehash_bucket h bucket new_buckets of
        Inl e \<Rightarrow> Inl e
      | Inr nb \<Rightarrow> rehash h rest nb)"

definition Put :: "hash_fn \<Rightarrow> nat \<Rightarrow> HashTable \<Rightarrow> int \<Rightarrow> string \<Rightarrow> failure + HashTable" where
  "Put h g t key val =
     (let hashIndex = hash h t key in
      if \<not> in_range (buckets t) hashIndex then Inl undefined_behaviour
      else
        (case overwrite (buckets t ! nat hashIndex) key val of
           Some bucket' \<Rightarrow> Inr (t\<lparr>buckets := (buckets t)[nat hashIndex := bucket']\<rparr>)
         | None \<Rightarrow>
             (let bs = (buckets t)[nat hashIndex := buckets t ! nat hashIndex @ [(key, val)]];
                  n = num_keys t + 1
              in if double_le (load_factor t) (Finite (real_of_int n / real (length bs))) then
                   (case rehash h bs (replicate (length bs * g) []) of
                      Inl e \<Rightarrow> Inl e
                    | Inr new_buckets \<Rightarrow> Inr (t\<lparr>num_keys := n, buckets := new_buckets\<rparr>))
                 else Inr (t\<lparr>num_keys := n, buckets := bs\<rparr>))))"

subsection \<open>Remove\<close>

text \<open>The loop of \<^verbatim>\<open>Remove\<close> stops at the first pair with the key.\<close>

fun find_pair :: "Bucket \<Rightarrow> int \<Rightarrow> (int \<times> string) option" where
  "find_pair [] key = None"
| "find_pair (pair # rest) key = (if fst pair = key then Some pair else find_pair rest key)"

text \<open>
  \<^verbatim>\<open>std::list::remove(pair)\<close> erases every element equal to \<open>pair\<close>, which is
  \<^const>\<open>removeAll\<close>. The function changes no other member: \<^verbatim>\<open>num_keys_\<close> is not touched.
\<close>

definition Remove :: "hash_fn \<Rightarrow> HashTable \<Rightarrow> int \<Rightarrow> failure + (string option \<times> HashTable)" where
  "Remove h t key =
     (let index = hash h t key in
      if \<not> in_range (buckets t) index then Inl undefined_behaviour
      else
        (case find_pair (buckets t ! nat index) key of
           Some pair \<Rightarrow>
             Inr (Some (snd pair),
                  t\<lparr>buckets := (buckets t)[nat index := removeAll pair (buckets t ! nat index)]\<rparr>)
         | None \<Rightarrow> Inr (None, t)))"

subsection \<open>Accessors\<close>

definition size_of :: "HashTable \<Rightarrow> int" where
  "size_of t = num_keys t"

definition empty_of :: "HashTable \<Rightarrow> bool" where
  "empty_of t \<longleftrightarrow> size_of t = 0"

definition capacity :: "HashTable \<Rightarrow> nat" where
  "capacity t = length (buckets t)"

text \<open>\<^verbatim>\<open>keys()\<close> inserts the key of every pair of every bucket into an unordered set.\<close>

definition keys :: "HashTable \<Rightarrow> int set" where
  "keys t = fold (\<lambda>bucket ks. fold (\<lambda>pair ks'. insert (fst pair) ks') bucket ks) (buckets t) {}"

text \<open>\<^verbatim>\<open>values()\<close> pushes the value of every pair of every bucket, in order.\<close>

definition values_of :: "HashTable \<Rightarrow> string list" where
  "values_of t = fold (\<lambda>bucket vs. fold (\<lambda>pair vs'. vs' @ [snd pair]) bucket vs) (buckets t) []"

subsection \<open>The hash function contract, the placement invariant, reachable states\<close>

text \<open>
  The contract of the hash function: for a positive number of buckets the result is an
  index below it. (Determinism is built in: \<open>h\<close> is a function.)
\<close>

definition hash_ok :: "hash_fn \<Rightarrow> bool" where
  "hash_ok h \<longleftrightarrow> (\<forall>key n. 0 < n \<longrightarrow> 0 \<le> h key n \<and> h key n < n)"

text \<open>Every pair lies in the bucket whose index is the hash of its key.\<close>

definition well_placed :: "hash_fn \<Rightarrow> Bucket list \<Rightarrow> bool" where
  "well_placed h bs \<longleftrightarrow>
     (\<forall>i < length bs. \<forall>pair \<in> set (bs ! i). h (fst pair) (int (length bs)) = int i)"

definition invar :: "hash_fn \<Rightarrow> HashTable \<Rightarrow> bool" where
  "invar h t \<longleftrightarrow> buckets t \<noteq> [] \<and> well_placed h (buckets t)"

text \<open>The states that a caller reaches from \<open>t0\<close> by calls of Put and Remove that return.\<close>

inductive reaches :: "hash_fn \<Rightarrow> nat \<Rightarrow> HashTable \<Rightarrow> HashTable \<Rightarrow> bool"
  for h :: hash_fn and g :: nat and t0 :: HashTable where
  start: "reaches h g t0 t0"
| after_Put: "reaches h g t0 t \<Longrightarrow> Put h g t key val = Inr t' \<Longrightarrow> reaches h g t0 t'"
| after_Remove: "reaches h g t0 t \<Longrightarrow> Remove h t key = Inr (r, t') \<Longrightarrow> reaches h g t0 t'"

text \<open>The states reachable from a successful construction with the given arguments.\<close>

definition reachable :: "hash_fn \<Rightarrow> nat \<Rightarrow> int \<Rightarrow> double \<Rightarrow> HashTable \<Rightarrow> bool" where
  "reachable h g c lf t \<longleftrightarrow> (\<exists>t0. HashTable_new c lf = Inr t0 \<and> reaches h g t0 t)"

text \<open>
  Modelled from the spec: \<^verbatim>\<open>utils::hash\<close>, which is defined outside \<^verbatim>\<open>hash_table.cpp\<close>. The
  spec fixes only its contract (``given a key and a positive bucket count n,
  deterministically produces an index in [0, n)''); this instance of the contract is used
  where a concrete table is evaluated.
\<close>

definition sample_hash :: hash_fn where
  "sample_hash key n = \<bar>key\<bar> mod n"

section \<open>Properties\<close>

subsection \<open>The bucket loops\<close>

lemma scan_map_of: "scan b key = map_of b key"
  by (induction b) auto

lemma scan_None_iff: "scan b key = None \<longleftrightarrow> key \<notin> fst ` set b"
  by (simp add: scan_map_of map_of_eq_None_iff)

lemma find_pair_None_iff: "find_pair b key = None \<longleftrightarrow> scan b key = None"
  by (induction b) auto

lemma find_pair_Some:
  "find_pair b key = Some pair \<Longrightarrow> fst pair = key \<and> pair \<in> set b \<and> scan b key = Some (snd pair)"
  by (induction b) (auto split: if_splits)

lemma overwrite_None_iff: "overwrite b key val = None \<longleftrightarrow> scan b key = None"
  by (induction b) (auto split: option.splits)

lemma overwrite_Some_keys: "overwrite b key val = Some b' \<Longrightarrow> map fst b' = map fst b"
  by (induction b arbitrary: b') (auto split: if_splits option.splits)

lemma overwrite_Some_scan:
  "overwrite b key val = Some b' \<Longrightarrow> scan b' k = (if k = key then Some val else scan b k)"
  by (induction b arbitrary: b') (auto split: if_splits option.splits)

lemma scan_append_new:
  "scan b key = None \<Longrightarrow> scan (b @ [(key, val)]) k = (if k = key then Some val else scan b k)"
  by (induction b) (auto split: if_splits)

lemma scan_removeAll_other:
  "fst pair \<noteq> k \<Longrightarrow> scan (removeAll pair b) k = scan b k"
  by (induction b) auto

lemma scan_filter:
  "(\<And>pair. fst pair = k \<Longrightarrow> P pair) \<Longrightarrow> scan (filter P b) k = scan b k"
  by (induction b) auto

lemma scan_concat_bucket:
  "i < length bs \<Longrightarrow> (\<forall>j < length bs. j \<noteq> i \<longrightarrow> k \<notin> fst ` set (bs ! j))
     \<Longrightarrow> scan (concat bs) k = scan (bs ! i) k"
proof (induction bs arbitrary: i)
  case Nil
  then show ?case by simp
next
  case (Cons b bs)
  show ?case
  proof (cases i)
    case 0
    have "\<forall>j < length bs. k \<notin> fst ` set (bs ! j)"
      using Cons.prems(2) by (metis Suc_less_eq length_Cons nat.distinct(1) nth_Cons_Suc 0)
    then have "\<forall>b' \<in> set bs. k \<notin> fst ` set b'"
      by (metis in_set_conv_nth)
    then have "k \<notin> fst ` set (concat bs)"
      by auto
    then have "map_of (concat bs) k = None"
      by (simp add: map_of_eq_None_iff)
    then show ?thesis using 0
      by (simp add: scan_map_of map_add_def split: option.splits)
  next
    case (Suc i')
    have b: "k \<notin> fst ` set b"
      using Cons.prems(2) Suc by (metis length_greater_0_conv list.discI nat.distinct(1) nth_Cons_0 length_Cons zero_less_Suc)
    have "\<forall>j < length bs. j \<noteq> i' \<longrightarrow> k \<notin> fst ` set (bs ! j)"
      using Cons.prems(2) Suc by (metis Suc_less_eq length_Cons nat.inject nth_Cons_Suc)
    then have "scan (concat bs) k = scan (bs ! i') k"
      using Cons.IH[of i'] Cons.prems(1) Suc by simp
    moreover have "map_of b k = None"
      using b by (simp add: map_of_eq_None_iff)
    ultimately show ?thesis using Suc
      by (simp add: scan_map_of map_add_def split: option.splits)
  qed
qed

lemma hash_in_range: "hash_ok h \<Longrightarrow> (bs::Bucket list) \<noteq> [] \<Longrightarrow> in_range bs (h key (int (length bs)))"
  by (simp add: hash_ok_def in_range_def)

lemma in_range_nat: "in_range bs i \<Longrightarrow> nat i < length bs \<and> int (nat i) = i"
  by (auto simp: in_range_def)

lemma well_placed_elsewhere:
  "\<lbrakk>well_placed h bs; j < length bs; int j \<noteq> h k (int (length bs)); k \<in> fst ` set (bs ! j)\<rbrakk> \<Longrightarrow> False"
proof -
  assume wp: "well_placed h bs" and j: "j < length bs" and ne: "int j \<noteq> h k (int (length bs))"
    and "k \<in> fst ` set (bs ! j)"
  then obtain pair where p: "pair \<in> set (bs ! j)" "fst pair = k" by auto
  from wp j p(1) have "h (fst pair) (int (length bs)) = int j"
    unfolding well_placed_def by blast
  with p(2) ne show False by simp
qed

lemma scan_concat_well_placed:
  assumes "well_placed h bs" and "in_range bs (h k (int (length bs)))"
  shows "scan (concat bs) k = scan (bs ! nat (h k (int (length bs)))) k"
proof (rule scan_concat_bucket)
  show "nat (h k (int (length bs))) < length bs"
    using assms(2) by (simp add: in_range_nat)
  show "\<forall>j<length bs. j \<noteq> nat (h k (int (length bs))) \<longrightarrow> k \<notin> fst ` set (bs ! j)"
  proof (intro allI impI notI)
    fix j assume j: "j < length bs" "j \<noteq> nat (h k (int (length bs)))" "k \<in> fst ` set (bs ! j)"
    have "int j \<noteq> h k (int (length bs))" using j(2) by auto
    then show False using well_placed_elsewhere[OF assms(1) j(1) _ j(3)] by blast
  qed
qed

lemma Search_concat:
  assumes "invar h t" and "hash_ok h"
  shows "Search h t k = Inr (scan (concat (buckets t)) k)"
proof -
  have r: "in_range (buckets t) (h k (int (length (buckets t))))"
    using assms by (simp add: invar_def hash_in_range)
  then show ?thesis
    using assms(1) scan_concat_well_placed[of h "buckets t" k]
    by (simp add: Search_def hash_def invar_def Let_def)
qed

subsection \<open>Rehashing\<close>

lemma mset_concat_push_back:
  "i < length bs \<Longrightarrow> mset (concat (bs[i := bs ! i @ [pair]])) = add_mset pair (mset (concat bs))"
proof (induction bs arbitrary: i)
  case Nil
  then show ?case by simp
next
  case (Cons b bs)
  then show ?case by (cases i) simp_all
qed

lemma place_result:
  assumes "hash_ok h" and "nb \<noteq> []"
  shows "\<exists>nb'. place h nb pair = Inr nb' \<and> length nb' = length nb
           \<and> (\<forall>j < length nb. nb' ! j = nb ! j @ filter (\<lambda>q. h (fst q) (int (length nb)) = int j) [pair])
           \<and> mset (concat nb') = add_mset pair (mset (concat nb))"
proof -
  let ?i = "h (fst pair) (int (length nb))"
  have r: "in_range nb ?i" using assms by (rule hash_in_range)
  then have i: "nat ?i < length nb" "int (nat ?i) = ?i" using in_range_nat[OF r] by simp_all
  have p: "place h nb pair = Inr (nb[nat ?i := nb ! nat ?i @ [pair]])"
    using r by (simp add: place_def Let_def)
  have "\<forall>j < length nb. (nb[nat ?i := nb ! nat ?i @ [pair]]) ! j
          = nb ! j @ filter (\<lambda>q. h (fst q) (int (length nb)) = int j) [pair]"
    using i by (auto simp: nth_list_update)
  then show ?thesis
    using p i(1) by (simp add: mset_concat_push_back)
qed

lemma rehash_bucket_result:
  assumes "hash_ok h" and "nb \<noteq> []"
  shows "\<exists>nb'. rehash_bucket h b nb = Inr nb' \<and> length nb' = length nb
           \<and> (\<forall>j < length nb. nb' ! j = nb ! j @ filter (\<lambda>q. h (fst q) (int (length nb)) = int j) b)
           \<and> mset (concat nb') = mset b + mset (concat nb)"
  using assms(2)
proof (induction b arbitrary: nb)
  case Nil
  then show ?case by simp
next
  case (Cons pair rest)
  obtain nb1 where 1: "place h nb pair = Inr nb1" "length nb1 = length nb"
      "\<forall>j < length nb. nb1 ! j = nb ! j @ filter (\<lambda>q. h (fst q) (int (length nb)) = int j) [pair]"
      "mset (concat nb1) = add_mset pair (mset (concat nb))"
    using place_result[OF assms(1) Cons.prems, of pair] by blast
  have "nb1 \<noteq> []" using 1(2) Cons.prems by auto
  from Cons.IH[OF this] obtain nb2 where 2: "rehash_bucket h rest nb1 = Inr nb2"
      "length nb2 = length nb1"
      "\<forall>j < length nb1. nb2 ! j = nb1 ! j @ filter (\<lambda>q. h (fst q) (int (length nb1)) = int j) rest"
      "mset (concat nb2) = mset rest + mset (concat nb1)"
    by blast
  have "rehash_bucket h (pair # rest) nb = Inr nb2" using 1(1) 2(1) by simp
  moreover have "length nb2 = length nb" using 1(2) 2(2) by simp
  moreover have "\<forall>j < length nb. nb2 ! j
       = nb ! j @ filter (\<lambda>q. h (fst q) (int (length nb)) = int j) (pair # rest)"
    using 1(2,3) 2(3) by simp
  moreover have "mset (concat nb2) = mset (pair # rest) + mset (concat nb)"
    using 1(4) 2(4) by simp
  ultimately show ?case by blast
qed

lemma rehash_result:
  assumes "hash_ok h" and "nb \<noteq> []"
  shows "\<exists>nb'. rehash h bs nb = Inr nb' \<and> length nb' = length nb
           \<and> (\<forall>j < length nb. nb' ! j = nb ! j @ filter (\<lambda>q. h (fst q) (int (length nb)) = int j) (concat bs))
           \<and> mset (concat nb') = mset (concat bs) + mset (concat nb)"
  using assms(2)
proof (induction bs arbitrary: nb)
  case Nil
  then show ?case by simp
next
  case (Cons b rest)
  obtain nb1 where 1: "rehash_bucket h b nb = Inr nb1" "length nb1 = length nb"
      "\<forall>j < length nb. nb1 ! j = nb ! j @ filter (\<lambda>q. h (fst q) (int (length nb)) = int j) b"
      "mset (concat nb1) = mset b + mset (concat nb)"
    using rehash_bucket_result[OF assms(1) Cons.prems, of b] by blast
  have "nb1 \<noteq> []" using 1(2) Cons.prems by auto
  from Cons.IH[OF this] obtain nb2 where 2: "rehash h rest nb1 = Inr nb2"
      "length nb2 = length nb1"
      "\<forall>j < length nb1. nb2 ! j = nb1 ! j @ filter (\<lambda>q. h (fst q) (int (length nb1)) = int j) (concat rest)"
      "mset (concat nb2) = mset (concat rest) + mset (concat nb1)"
    by blast
  have "rehash h (b # rest) nb = Inr nb2" using 1(1) 2(1) by simp
  moreover have "length nb2 = length nb" using 1(2) 2(2) by simp
  moreover have "\<forall>j < length nb. nb2 ! j
       = nb ! j @ filter (\<lambda>q. h (fst q) (int (length nb)) = int j) (concat (b # rest))"
    using 1(2,3) 2(3) by simp
  moreover have "mset (concat nb2) = mset (concat (b # rest)) + mset (concat nb)"
    using 1(4) 2(4) by simp
  ultimately show ?case by blast
qed

lemma concat_replicate_Nil: "concat (replicate n []) = []"
  by (induction n) simp_all

lemma rehash_fresh:
  assumes "hash_ok h" and "0 < n"
  shows "\<exists>nb. rehash h bs (replicate n []) = Inr nb \<and> length nb = n
           \<and> (\<forall>j < n. nb ! j = filter (\<lambda>q. h (fst q) (int n) = int j) (concat bs))
           \<and> mset (concat nb) = mset (concat bs)"
proof -
  have "replicate n ([]::Bucket) \<noteq> []" using assms(2) by auto
  from rehash_result[OF assms(1) this, of bs] show ?thesis
    by (auto simp: concat_replicate_Nil)
qed

lemma rehash_fresh_well_placed:
  "rehash h bs (replicate n []) = Inr nb \<Longrightarrow> hash_ok h \<Longrightarrow> 0 < n \<Longrightarrow> well_placed h nb"
  using rehash_fresh[of h n bs] by (auto simp: well_placed_def)

subsection \<open>The three paths of Put\<close>

lemma Put_overwrite:
  assumes "in_range (buckets t) (hash h t key)"
    and "overwrite (buckets t ! nat (hash h t key)) key val = Some bucket'"
  shows "Put h g t key val = Inr (t\<lparr>buckets := (buckets t)[nat (hash h t key) := bucket']\<rparr>)"
  using assms by (simp add: Put_def Let_def)

lemma Put_insert:
  assumes "in_range (buckets t) (hash h t key)"
    and "overwrite (buckets t ! nat (hash h t key)) key val = None"
    and "\<not> double_le (load_factor t) (Finite (real_of_int (num_keys t + 1) / real (length (buckets t))))"
  shows "Put h g t key val = Inr (t\<lparr>num_keys := num_keys t + 1,
           buckets := (buckets t)[nat (hash h t key) := buckets t ! nat (hash h t key) @ [(key, val)]]\<rparr>)"
  using assms by (simp add: Put_def Let_def)

lemma Put_resize:
  assumes "in_range (buckets t) (hash h t key)"
    and "overwrite (buckets t ! nat (hash h t key)) key val = None"
    and "double_le (load_factor t) (Finite (real_of_int (num_keys t + 1) / real (length (buckets t))))"
    and "rehash h ((buckets t)[nat (hash h t key) := buckets t ! nat (hash h t key) @ [(key, val)]])
           (replicate (length (buckets t) * g) []) = Inr new_buckets"
  shows "Put h g t key val = Inr (t\<lparr>num_keys := num_keys t + 1, buckets := new_buckets\<rparr>)"
  using assms by (simp add: Put_def Let_def)

lemma well_placed_update:
  assumes "well_placed h bs" and "i < length bs"
    and "\<forall>pair \<in> set b'. h (fst pair) (int (length bs)) = int i"
  shows "well_placed h (bs[i := b'])"
  unfolding well_placed_def
proof (intro allI impI ballI)
  fix j pair assume j: "j < length (bs[i := b'])" and p: "pair \<in> set (bs[i := b'] ! j)"
  show "h (fst pair) (int (length (bs[i := b']))) = int j"
  proof (cases "j = i")
    case True
    then show ?thesis using assms(2,3) p by simp
  next
    case False
    then show ?thesis using assms(1) j p by (simp add: well_placed_def)
  qed
qed

lemma scan_concat_update:
  assumes "well_placed h bs" and "well_placed h (bs[i := b'])" and "i < length bs"
    and "hash_ok h"
  shows "scan (concat (bs[i := b'])) k
           = (if nat (h k (int (length bs))) = i then scan b' k else scan (concat bs) k)"
proof -
  have ne: "bs \<noteq> []" using assms(3) by auto
  have r: "in_range bs (h k (int (length bs)))" using assms(4) ne by (rule hash_in_range)
  then have r': "in_range (bs[i := b']) (h k (int (length (bs[i := b']))))"
    by (simp add: in_range_def)
  have "scan (concat (bs[i := b'])) k = scan (bs[i := b'] ! nat (h k (int (length bs)))) k"
    using scan_concat_well_placed[OF assms(2) r'] by simp
  moreover have "scan (concat bs) k = scan (bs ! nat (h k (int (length bs)))) k"
    using scan_concat_well_placed[OF assms(1) r] .
  ultimately show ?thesis using assms(3) by (simp add: nth_list_update)
qed

text \<open>The pair list before the threshold test, when the key is new.\<close>

lemma push_back_correct:
  assumes "invar h t" and "hash_ok h"
    and "overwrite (buckets t ! nat (hash h t key)) key val = None"
  defines "bs \<equiv> (buckets t)[nat (hash h t key) := buckets t ! nat (hash h t key) @ [(key, val)]]"
  shows "well_placed h bs" and "length bs = length (buckets t)"
    and "scan (concat bs) k = (if k = key then Some val else scan (concat (buckets t)) k)"
    and "mset (concat bs) = add_mset (key, val) (mset (concat (buckets t)))"
proof -
  let ?i = "nat (hash h t key)"
  have ne: "buckets t \<noteq> []" and wp: "well_placed h (buckets t)"
    using assms(1) by (simp_all add: invar_def)
  have r: "in_range (buckets t) (hash h t key)"
    using assms(2) ne by (simp add: hash_def hash_in_range)
  then have i: "?i < length (buckets t)" "int ?i = hash h t key"
    using in_range_nat by blast+
  have "\<forall>pair \<in> set (buckets t ! ?i @ [(key, val)]). h (fst pair) (int (length (buckets t))) = int ?i"
    using wp i by (auto simp: well_placed_def hash_def)
  then show wp': "well_placed h bs"
    unfolding bs_def using wp i(1) by (rule well_placed_update[rotated 2])
  show "length bs = length (buckets t)" by (simp add: bs_def)
  have none: "scan (buckets t ! ?i) key = None"
    using assms(3) by (simp add: overwrite_None_iff)
  have "scan (concat bs) k
          = (if nat (h k (int (length (buckets t)))) = ?i then scan (buckets t ! ?i @ [(key, val)]) k
             else scan (concat (buckets t)) k)"
    unfolding bs_def using wp wp'[unfolded bs_def] i(1) assms(2) by (rule scan_concat_update)
  moreover have "scan (concat (buckets t)) k = scan (buckets t ! nat (h k (int (length (buckets t))))) k"
    using scan_concat_well_placed[OF wp hash_in_range[OF assms(2) ne]] .
  ultimately show "scan (concat bs) k = (if k = key then Some val else scan (concat (buckets t)) k)"
    using none by (auto simp: scan_append_new hash_def)
  show "mset (concat bs) = add_mset (key, val) (mset (concat (buckets t)))"
    unfolding bs_def using i(1) by (rule mset_concat_push_back)
qed

lemma overwrite_correct:
  assumes "invar h t" and "hash_ok h"
    and "overwrite (buckets t ! nat (hash h t key)) key val = Some b'"
  defines "bs \<equiv> (buckets t)[nat (hash h t key) := b']"
  shows "well_placed h bs" and "length bs = length (buckets t)"
    and "scan (concat bs) k = (if k = key then Some val else scan (concat (buckets t)) k)"
proof -
  let ?i = "nat (hash h t key)"
  have ne: "buckets t \<noteq> []" and wp: "well_placed h (buckets t)"
    using assms(1) by (simp_all add: invar_def)
  have r: "in_range (buckets t) (hash h t key)"
    using assms(2) ne by (simp add: hash_def hash_in_range)
  then have i: "?i < length (buckets t)" "int ?i = hash h t key"
    using in_range_nat by blast+
  have "fst ` set b' = fst ` set (buckets t ! ?i)"
    using overwrite_Some_keys[OF assms(3)] by (metis set_map)
  then have "\<forall>pair \<in> set b'. h (fst pair) (int (length (buckets t))) = int ?i"
    using wp i(1) unfolding well_placed_def
    by (metis (no_types, lifting) fst_conv imageE imageI prod.collapse)
  then show wp': "well_placed h bs"
    unfolding bs_def using wp i(1) by (rule well_placed_update[rotated 2])
  show "length bs = length (buckets t)" by (simp add: bs_def)
  have "scan (concat bs) k
          = (if nat (h k (int (length (buckets t)))) = ?i then scan b' k
             else scan (concat (buckets t)) k)"
    unfolding bs_def using wp wp'[unfolded bs_def] i(1) assms(2) by (rule scan_concat_update)
  moreover have "scan (concat (buckets t)) k = scan (buckets t ! nat (h k (int (length (buckets t))))) k"
    using scan_concat_well_placed[OF wp hash_in_range[OF assms(2) ne]] .
  ultimately show "scan (concat bs) k = (if k = key then Some val else scan (concat (buckets t)) k)"
    using overwrite_Some_scan[OF assms(3), of k] by (auto simp: hash_def)
qed

lemma rehash_fresh_scan:
  assumes "rehash h bs (replicate n []) = Inr nb" and "hash_ok h" and "0 < n"
  shows "scan (concat nb) k = scan (concat bs) k"
proof -
  from rehash_fresh[OF assms(2,3), of bs] assms(1)
  have len: "length nb = n"
    and nth: "\<forall>j < n. nb ! j = filter (\<lambda>q. h (fst q) (int n) = int j) (concat bs)"
    by auto
  have wp: "well_placed h nb" using assms by (rule rehash_fresh_well_placed)
  have ne: "nb \<noteq> []" using len assms(3) by auto
  have r: "in_range nb (h k (int (length nb)))" using assms(2) ne by (rule hash_in_range)
  let ?j = "nat (h k (int n))"
  have j: "?j < n" "int ?j = h k (int n)" using in_range_nat[OF r] len by simp_all
  have "scan (concat nb) k = scan (nb ! ?j) k"
    using scan_concat_well_placed[OF wp r] len by simp
  also have "\<dots> = scan (filter (\<lambda>q. h (fst q) (int n) = int ?j) (concat bs)) k"
    using nth j(1) by simp
  also have "\<dots> = scan (concat bs) k"
    using j(2) by (intro scan_filter) simp
  finally show ?thesis .
qed

lemma Put_correct:
  assumes "invar h t" and "hash_ok h" and "0 < g"
  shows "\<exists>t'. Put h g t key val = Inr t' \<and> invar h t' \<and> load_factor t' = load_factor t
           \<and> (\<forall>k. scan (concat (buckets t')) k
                   = (if k = key then Some val else scan (concat (buckets t)) k))"
proof -
  let ?i = "nat (hash h t key)"
  have ne: "buckets t \<noteq> []" using assms(1) by (simp add: invar_def)
  have r: "in_range (buckets t) (hash h t key)"
    using assms(2) ne by (simp add: hash_def hash_in_range)
  show ?thesis
  proof (cases "overwrite (buckets t ! ?i) key val")
    case (Some b')
    let ?t' = "t\<lparr>buckets := (buckets t)[?i := b']\<rparr>"
    have "Put h g t key val = Inr ?t'" using r Some by (rule Put_overwrite)
    moreover have "invar h ?t'"
      using overwrite_correct(1)[OF assms(1,2) Some] ne by (simp add: invar_def)
    moreover have "\<forall>k. scan (concat (buckets ?t')) k
                   = (if k = key then Some val else scan (concat (buckets t)) k)"
      using overwrite_correct(3)[OF assms(1,2) Some] by simp
    ultimately show ?thesis by simp
  next
    case None
    let ?bs = "(buckets t)[?i := buckets t ! ?i @ [(key, val)]]"
    note pb = push_back_correct[OF assms(1,2) None]
    show ?thesis
    proof (cases "double_le (load_factor t) (Finite (real_of_int (num_keys t + 1) / real (length (buckets t))))")
      case False
      let ?t' = "t\<lparr>num_keys := num_keys t + 1, buckets := ?bs\<rparr>"
      have "Put h g t key val = Inr ?t'" using r None False by (rule Put_insert)
      moreover have "invar h ?t'" using pb(1) ne by (simp add: invar_def)
      moreover have "\<forall>k. scan (concat (buckets ?t')) k
                   = (if k = key then Some val else scan (concat (buckets t)) k)"
        using pb(3) by simp
      ultimately show ?thesis by simp
    next
      case True
      have pos: "0 < length (buckets t) * g" using ne assms(3) by simp
      from rehash_fresh[OF assms(2) pos, of ?bs]
      obtain nb where nb: "rehash h ?bs (replicate (length (buckets t) * g) []) = Inr nb"
        "length nb = length (buckets t) * g" by blast
      let ?t' = "t\<lparr>num_keys := num_keys t + 1, buckets := nb\<rparr>"
      have "Put h g t key val = Inr ?t'" using r None True nb(1) by (rule Put_resize)
      moreover have "invar h ?t'"
        using rehash_fresh_well_placed[OF nb(1) assms(2) pos] nb(2) pos by (auto simp: invar_def)
      moreover have "\<forall>k. scan (concat (buckets ?t')) k
                   = (if k = key then Some val else scan (concat (buckets t)) k)"
        using rehash_fresh_scan[OF nb(1) assms(2) pos] pb(3) by simp
      ultimately show ?thesis by simp
    qed
  qed
qed

lemma well_placed_removeAll:
  assumes "well_placed h bs" and "i < length bs"
  shows "well_placed h (bs[i := removeAll pair (bs ! i)])"
proof (rule well_placed_update[OF assms])
  show "\<forall>q \<in> set (removeAll pair (bs ! i)). h (fst q) (int (length bs)) = int i"
    using assms by (simp add: well_placed_def)
qed

lemma Remove_correct:
  assumes "invar h t" and "hash_ok h"
  shows "\<exists>t'. Remove h t key = Inr (scan (concat (buckets t)) key, t') \<and> invar h t'
           \<and> load_factor t' = load_factor t \<and> num_keys t' = num_keys t
           \<and> length (buckets t') = length (buckets t)
           \<and> (\<forall>k. k \<noteq> key \<longrightarrow> scan (concat (buckets t')) k = scan (concat (buckets t)) k)"
proof -
  let ?i = "nat (hash h t key)"
  have ne: "buckets t \<noteq> []" and wp: "well_placed h (buckets t)"
    using assms(1) by (simp_all add: invar_def)
  have r: "in_range (buckets t) (hash h t key)"
    using assms(2) ne by (simp add: hash_def hash_in_range)
  then have i: "?i < length (buckets t)" using in_range_nat by blast
  have sc: "scan (concat (buckets t)) key = scan (buckets t ! ?i) key"
    using scan_concat_well_placed[OF wp, of key] r by (simp add: hash_def)
  show ?thesis
  proof (cases "find_pair (buckets t ! ?i) key")
    case None
    then have "Remove h t key = Inr (None, t)" using r by (simp add: Remove_def Let_def)
    moreover have "scan (concat (buckets t)) key = None"
      using None sc by (simp add: find_pair_None_iff)
    ultimately show ?thesis using assms(1) by simp
  next
    case (Some pair)
    let ?bs = "(buckets t)[?i := removeAll pair (buckets t ! ?i)]"
    let ?t' = "t\<lparr>buckets := ?bs\<rparr>"
    note fp = find_pair_Some[OF Some]
    have "Remove h t key = Inr (Some (snd pair), ?t')"
      using Some r by (simp add: Remove_def Let_def)
    moreover have "scan (concat (buckets t)) key = Some (snd pair)" using sc fp by simp
    moreover have wp': "well_placed h ?bs" using wp i by (rule well_placed_removeAll)
    moreover have "\<forall>k. k \<noteq> key \<longrightarrow> scan (concat ?bs) k = scan (concat (buckets t)) k"
    proof (intro allI impI)
      fix k assume "k \<noteq> key"
      then have "scan (removeAll pair (buckets t ! ?i)) k = scan (buckets t ! ?i) k"
        using fp by (simp add: scan_removeAll_other)
      moreover have "scan (concat (buckets t)) k = scan (buckets t ! nat (h k (int (length (buckets t))))) k"
        using scan_concat_well_placed[OF wp hash_in_range[OF assms(2) ne]] .
      ultimately show "scan (concat ?bs) k = scan (concat (buckets t)) k"
        using scan_concat_update[OF wp wp' i assms(2), of k] by auto
    qed
    ultimately show ?thesis using ne by (simp add: invar_def)
  qed
qed

subsection \<open>Reachable states\<close>

lemma HashTable_new_Inr:
  assumes "HashTable_new c lf = Inr t"
  shows "0 < c" and "lf = NaN \<or> (\<exists>x. lf = Finite x \<and> 0 < x \<and> x \<le> 1)"
    and "t = \<lparr>load_factor = lf, num_keys = 0, buckets = replicate (nat c) []\<rparr>"
  using assms by (cases lf; auto simp: HashTable_new_def initial_num_keys_def split: if_splits)+

lemma HashTable_new_invar: "HashTable_new c lf = Inr t \<Longrightarrow> invar h t"
  by (auto simp: HashTable_new_def invar_def well_placed_def split: if_splits)

lemma reaches_invar:
  assumes "reaches h g t0 t" and "invar h t0" and "hash_ok h" and "0 < g"
  shows "invar h t"
  using assms(1)
proof (induction rule: reaches.induct)
  case start
  show ?case by (rule assms(2))
next
  case (after_Put t key val t')
  then show ?case using Put_correct[OF after_Put.IH assms(3,4), of key val] by auto
next
  case (after_Remove t key r t')
  then show ?case using Remove_correct[OF after_Remove.IH assms(3), of key] by auto
qed

lemma reachable_invar:
  "reachable h g c lf t \<Longrightarrow> hash_ok h \<Longrightarrow> 0 < g \<Longrightarrow> invar h t"
  unfolding reachable_def using reaches_invar HashTable_new_invar by blast

lemma hash_ok_sample_hash: "hash_ok sample_hash"
  by (simp add: hash_ok_def sample_hash_def)

lemma keys_bucket: "fold (\<lambda>pair ks'. insert (fst pair) ks') b S = S \<union> fst ` set b"
  by (induction b arbitrary: S) auto

lemma keys_buckets:
  "fold (\<lambda>bucket ks. fold (\<lambda>pair ks'. insert (fst pair) ks') bucket ks) bs S
     = S \<union> fst ` set (concat bs)"
  by (induction bs arbitrary: S) (auto simp: keys_bucket)

lemma keys_concat: "keys t = fst ` set (concat (buckets t))"
  by (simp add: keys_def keys_buckets)

lemma place_length: "place h nb pair = Inr nb' \<Longrightarrow> length nb' = length nb"
  by (auto simp: place_def Let_def split: if_splits)

lemma rehash_bucket_length: "rehash_bucket h b nb = Inr nb' \<Longrightarrow> length nb' = length nb"
  by (induction b arbitrary: nb) (auto split: sum.splits dest: place_length)

lemma rehash_length: "rehash h bs nb = Inr nb' \<Longrightarrow> length nb' = length nb"
  by (induction bs arbitrary: nb) (auto split: sum.splits dest: rehash_bucket_length)

lemma Put_cases:
  assumes "Put h g t key val = Inr t'"
  shows "load_factor t' = load_factor t \<and>
     (if scan (buckets t ! nat (hash h t key)) key \<noteq> None
      then num_keys t' = num_keys t \<and> length (buckets t') = length (buckets t)
      else num_keys t' = num_keys t + 1 \<and>
           (if double_le (load_factor t) (Finite (real_of_int (num_keys t + 1) / real (length (buckets t))))
            then length (buckets t') = length (buckets t) * g
            else length (buckets t') = length (buckets t)))"
proof (cases "overwrite (buckets t ! nat (hash h t key)) key val")
  case (Some b')
  then have "scan (buckets t ! nat (hash h t key)) key \<noteq> None"
    using overwrite_None_iff[of "buckets t ! nat (hash h t key)" key val] by simp
  then show ?thesis using assms Some
    by (auto simp: Put_def Let_def split: if_splits)
next
  case None
  then have "scan (buckets t ! nat (hash h t key)) key = None"
    by (simp add: overwrite_None_iff)
  then show ?thesis using assms None
    by (auto simp: Put_def Let_def split: if_splits sum.splits dest: rehash_length)
qed

lemma Remove_cases:
  assumes "Remove h t key = Inr (r, t')"
  shows "load_factor t' = load_factor t \<and> num_keys t' = num_keys t
           \<and> length (buckets t') = length (buckets t)"
  using assms by (auto simp: Remove_def Let_def split: if_splits option.splits)

subsection \<open>Construction\<close>

text \<open>
  For every load factor other than NaN the constructor throws exactly when the capacity
  is not positive or the load factor is outside \<open>(0, 1]\<close>, and otherwise returns a table
  of \<open>capacity\<close> empty buckets and size 0.
\<close>

lemma HashTable_new_not_NaN:
  assumes "lf \<noteq> NaN"
  shows "((\<exists>msg. HashTable_new c lf = Inl (logic_error msg))
            \<longleftrightarrow> (c \<le> 0 \<or> \<not> (double_less (Finite 0) lf \<and> double_le lf (Finite 1))))
       \<and> (0 < c \<and> double_less (Finite 0) lf \<and> double_le lf (Finite 1) \<longrightarrow>
            (\<exists>t. HashTable_new c lf = Inr t \<and> capacity t = nat c
                 \<and> buckets t = replicate (nat c) [] \<and> size_of t = 0))"
  using assms
  by (cases lf) (auto simp: HashTable_new_def initial_num_keys_def capacity_def size_of_def)

text \<open>
  C4. Both tests of the guard \<^verbatim>\<open>load_factor <= 0.0 || load_factor > 1.0\<close> are false for
  NaN: construction with capacity 5 and a NaN load factor throws nothing and returns a
  table of five empty buckets whose load factor is NaN, although NaN is not in
  \<open>(0, 1]\<close> (neither \<open>0 < NaN\<close> nor \<open>NaN \<le> 1\<close> holds).
\<close>

theorem construction_accepts_NaN:
  "HashTable_new 5 NaN = Inr \<lparr>load_factor = NaN, num_keys = 0, buckets = [[], [], [], [], []]\<rparr>
   \<and> \<not> double_less (Finite 0) NaN \<and> \<not> double_le NaN (Finite 1)"
  by (simp add: HashTable_new_def initial_num_keys_def eval_nat_numeral)

subsection \<open>Absent keys\<close>

text \<open>
  C8. In every table with at least one bucket, for a key that \<^verbatim>\<open>keys()\<close> does not
  contain, Search returns the absent result and Remove returns the absent result
  together with the table unchanged (size, capacity and every bucket). Search is a
  function of the table that returns no table, so it has no effect on it.
\<close>
theorem absent_key:
  assumes "hash_ok h" and "buckets t \<noteq> []" and "key \<notin> keys t"
  shows "Search h t key = Inr None \<and> Remove h t key = Inr (None, t)"
proof -
  let ?i = "nat (hash h t key)"
  have r: "in_range (buckets t) (hash h t key)"
    using assms(1,2) by (simp add: hash_def hash_in_range)
  then have "?i < length (buckets t)" using in_range_nat by blast
  then have "buckets t ! ?i \<in> set (buckets t)" by simp
  then have "key \<notin> fst ` set (buckets t ! ?i)"
    using assms(3) by (auto simp: keys_concat)
  then have s: "scan (buckets t ! ?i) key = None" by (simp add: scan_None_iff)
  then have "find_pair (buckets t ! ?i) key = None" by (simp add: find_pair_None_iff)
  then show ?thesis using r s by (simp add: Search_def Remove_def Let_def)
qed

theorem absent_key_witness:
  "Search sample_hash \<lparr>load_factor = Finite (1/2), num_keys = 0, buckets = replicate 10 []\<rparr> 42 = Inr None
   \<and> Remove sample_hash \<lparr>load_factor = Finite (1/2), num_keys = 0, buckets = replicate 10 []\<rparr> 42
       = Inr (None, \<lparr>load_factor = Finite (1/2), num_keys = 0, buckets = replicate 10 []\<rparr>)"
proof -
  have "(42::int) \<notin> keys \<lparr>load_factor = Finite (1/2), num_keys = 0, buckets = replicate 10 []\<rparr>"
    by (simp add: keys_concat)
  moreover have "buckets \<lparr>load_factor = Finite (1/2), num_keys = 0, buckets = replicate 10 []\<rparr> \<noteq> []"
    by simp
  ultimately show ?thesis
    using absent_key[OF hash_ok_sample_hash] by blast
qed

subsection \<open>Put on a key already present\<close>

text \<open>
  C6. In every table in which Search finds the key, Put returns with the size, the
  capacity and the load factor unchanged, the keys of every bucket unchanged and in
  place (the growth branch is not entered, whatever the occupancy), and a following
  Search of the key returns the new value.
\<close>
theorem put_existing_key:
  assumes "Search h t key = Inr (Some v1)"
  shows "\<exists>t'. Put h g t key v2 = Inr t' \<and> size_of t' = size_of t \<and> capacity t' = capacity t
           \<and> load_factor t' = load_factor t
           \<and> map (map fst) (buckets t') = map (map fst) (buckets t)
           \<and> Search h t' key = Inr (Some v2)"
proof -
  let ?i = "nat (hash h t key)"
  have r: "in_range (buckets t) (hash h t key)"
    and s: "scan (buckets t ! ?i) key = Some v1"
    using assms by (auto simp: Search_def Let_def split: if_splits)
  then obtain b' where b': "overwrite (buckets t ! ?i) key v2 = Some b'"
    using overwrite_None_iff[of "buckets t ! ?i" key v2] by (cases "overwrite (buckets t ! ?i) key v2") auto
  let ?t' = "t\<lparr>buckets := (buckets t)[?i := b']\<rparr>"
  have i: "?i < length (buckets t)" using r in_range_nat by blast
  have p: "Put h g t key v2 = Inr ?t'" using r b' by (rule Put_overwrite)
  have h': "hash h ?t' key = hash h t key" by (simp add: hash_def)
  have "Search h ?t' key = Inr (Some v2)"
    using r i overwrite_Some_scan[OF b', of key]
    by (simp add: Search_def Let_def h' in_range_def)
  moreover have "map (map fst) (buckets ?t') = map (map fst) (buckets t)"
    using overwrite_Some_keys[OF b'] i by (simp add: map_update list_update_same_conv)
  ultimately show ?thesis using p by (simp add: size_of_def capacity_def)
qed

theorem put_existing_key_witness:
  "\<exists>t'. Put sample_hash 2 \<lparr>load_factor = Finite (1/2), num_keys = 1, buckets = [[], [(1, ''a'')], [], []]\<rparr> 1 ''b'' = Inr t'
     \<and> size_of t' = 1 \<and> capacity t' = 4 \<and> Search sample_hash t' 1 = Inr (Some ''b'')"
proof -
  have "Search sample_hash \<lparr>load_factor = Finite (1/2), num_keys = 1, buckets = [[], [(1, ''a'')], [], []]\<rparr> 1
          = Inr (Some ''a'')"
    by (simp add: Search_def hash_def in_range_def sample_hash_def)
  from put_existing_key[OF this, of 2 "''b''"] show ?thesis
    by (auto simp: size_of_def capacity_def)
qed

subsection \<open>Concrete tables\<close>

lemma new_4_half:
  "HashTable_new 4 (Finite (1/2)) = Inr \<lparr>load_factor = Finite (1/2), num_keys = 0, buckets = [[], [], [], []]\<rparr>"
  by (simp add: HashTable_new_def initial_num_keys_def eval_nat_numeral)

lemma put_1_into_4_half:
  "Put sample_hash 2 \<lparr>load_factor = Finite (1/2), num_keys = 0, buckets = [[], [], [], []]\<rparr> 1 ''a''
     = Inr \<lparr>load_factor = Finite (1/2), num_keys = 1, buckets = [[], [(1, ''a'')], [], []]\<rparr>"
  by (simp add: Put_def hash_def in_range_def sample_hash_def)

lemma reachable_one_key_4_half:
  "reachable sample_hash 2 4 (Finite (1/2))
     \<lparr>load_factor = Finite (1/2), num_keys = 1, buckets = [[], [(1, ''a'')], [], []]\<rparr>"
  unfolding reachable_def using new_4_half reaches.after_Put[OF reaches.start put_1_into_4_half]
  by blast

subsection \<open>Round trip and frame\<close>

text \<open>
  C5. In every reachable table, for every key and value, Put returns and a following
  Search of the key returns the value, on each of the three paths of Put (overwrite,
  insertion, insertion with resize), provided the hash function meets its contract and
  the growth coefficient is positive.
\<close>
theorem put_then_search:
  assumes "reachable h g c lf t" and "hash_ok h" and "0 < g"
  shows "\<exists>t'. Put h g t key val = Inr t' \<and> Search h t' key = Inr (Some val)"
proof -
  have "invar h t" using assms by (rule reachable_invar)
  from Put_correct[OF this assms(2,3), of key val]
  obtain t' where t': "Put h g t key val = Inr t'" "invar h t'"
    "\<forall>k. scan (concat (buckets t')) k = (if k = key then Some val else scan (concat (buckets t)) k)"
    by blast
  have "Search h t' key = Inr (Some val)"
    using Search_concat[OF t'(2) assms(2), of key] t'(3) by simp
  with t'(1) show ?thesis by blast
qed

theorem put_then_search_witness:
  "\<exists>t'. Put sample_hash 2 \<lparr>load_factor = Finite (1/2), num_keys = 1, buckets = [[], [(1, ''a'')], [], []]\<rparr> 2 ''b''
           = Inr t' \<and> Search sample_hash t' 2 = Inr (Some ''b'')"
  using put_then_search[OF reachable_one_key_4_half hash_ok_sample_hash, of 2 "''b''"] by simp

text \<open>
  C10. In every reachable table and for distinct keys \<open>key\<close> and \<open>k'\<close>, Put of \<open>key\<close>
  and Remove of \<open>key\<close> both return and leave the result of Search of \<open>k'\<close> as it
  was, also when the Put resized the table.
\<close>
theorem other_key_unchanged:
  assumes "reachable h g c lf t" and "hash_ok h" and "0 < g" and "k' \<noteq> key"
  shows "(\<exists>t'. Put h g t key val = Inr t' \<and> Search h t' k' = Search h t k')
       \<and> (\<exists>r t'. Remove h t key = Inr (r, t') \<and> Search h t' k' = Search h t k')"
proof
  have inv: "invar h t" using assms(1-3) by (rule reachable_invar)
  from Put_correct[OF inv assms(2,3), of key val]
  obtain t' where t': "Put h g t key val = Inr t'" "invar h t'"
    "\<forall>k. scan (concat (buckets t')) k = (if k = key then Some val else scan (concat (buckets t)) k)"
    by blast
  have "Search h t' k' = Search h t k'"
    using Search_concat[OF t'(2) assms(2), of k'] Search_concat[OF inv assms(2), of k'] t'(3) assms(4)
    by simp
  with t'(1) show "\<exists>t'. Put h g t key val = Inr t' \<and> Search h t' k' = Search h t k'" by blast
  from Remove_correct[OF inv assms(2), of key]
  obtain t'' where t'': "Remove h t key = Inr (scan (concat (buckets t)) key, t'')" "invar h t''"
    "\<forall>k. k \<noteq> key \<longrightarrow> scan (concat (buckets t'')) k = scan (concat (buckets t)) k"
    by blast
  have "Search h t'' k' = Search h t k'"
    using Search_concat[OF t''(2) assms(2), of k'] Search_concat[OF inv assms(2), of k'] t''(3) assms(4)
    by simp
  with t''(1) show "\<exists>r t'. Remove h t key = Inr (r, t') \<and> Search h t' k' = Search h t k'" by blast
qed

theorem other_key_unchanged_witness:
  "(\<exists>t'. Put sample_hash 2 \<lparr>load_factor = Finite (1/2), num_keys = 1, buckets = [[], [(1, ''a'')], [], []]\<rparr> 2 ''b''
            = Inr t' \<and> Search sample_hash t' 1 = Inr (Some ''a''))
   \<and> (\<exists>r t'. Remove sample_hash \<lparr>load_factor = Finite (1/2), num_keys = 1, buckets = [[], [(1, ''a'')], [], []]\<rparr> 2
            = Inr (r, t') \<and> Search sample_hash t' 1 = Inr (Some ''a''))"
proof -
  have s: "Search sample_hash \<lparr>load_factor = Finite (1/2), num_keys = 1, buckets = [[], [(1, ''a'')], [], []]\<rparr> 1
          = Inr (Some ''a'')"
    by (simp add: Search_def hash_def in_range_def sample_hash_def)
  have "(1::int) \<noteq> 2" by simp
  from other_key_unchanged[OF reachable_one_key_4_half hash_ok_sample_hash _ this, of "''b''"]
  show ?thesis unfolding s by simp
qed

subsection \<open>Resize\<close>

text \<open>
  C7. In a reachable table, when the key is new and the size after the insertion
  divided by the capacity reaches the load factor, Put returns a table whose capacity
  is the old capacity times the growth coefficient, in which every pair lies in the
  bucket whose index is the hash of its key against the new capacity, whose pairs are
  the old pairs and the new one, and in which Search still finds every key that it
  found before, with the same value.
\<close>
theorem resize_on_threshold:
  assumes "reachable h g c lf t" and "hash_ok h" and "0 < g"
    and "Search h t key = Inr None"
    and "double_le (load_factor t) (Finite (real_of_int (size_of t + 1) / real (capacity t)))"
  shows "\<exists>t'. Put h g t key val = Inr t' \<and> capacity t' = capacity t * g
           \<and> well_placed h (buckets t')
           \<and> mset (concat (buckets t')) = add_mset (key, val) (mset (concat (buckets t)))
           \<and> (\<forall>k v. Search h t k = Inr (Some v) \<longrightarrow> Search h t' k = Inr (Some v))"
proof -
  let ?i = "nat (hash h t key)"
  let ?bs = "(buckets t)[?i := buckets t ! ?i @ [(key, val)]]"
  have inv: "invar h t" using assms(1-3) by (rule reachable_invar)
  then have ne: "buckets t \<noteq> []" by (simp add: invar_def)
  have r: "in_range (buckets t) (hash h t key)"
    using assms(2) ne by (simp add: hash_def hash_in_range)
  have "scan (buckets t ! ?i) key = None"
    using assms(4) r by (simp add: Search_def Let_def)
  then have ov: "overwrite (buckets t ! ?i) key val = None" by (simp add: overwrite_None_iff)
  note pb = push_back_correct[OF inv assms(2) ov]
  have pos: "0 < length (buckets t) * g" using ne assms(3) by simp
  from rehash_fresh[OF assms(2) pos, of ?bs]
  obtain nb where nb: "rehash h ?bs (replicate (length (buckets t) * g) []) = Inr nb"
    "length nb = length (buckets t) * g" "mset (concat nb) = mset (concat ?bs)" by blast
  let ?t' = "t\<lparr>num_keys := num_keys t + 1, buckets := nb\<rparr>"
  have thr: "double_le (load_factor t) (Finite (real_of_int (num_keys t + 1) / real (length (buckets t))))"
    using assms(5) by (simp add: size_of_def capacity_def)
  have p: "Put h g t key val = Inr ?t'" using r ov thr nb(1) by (rule Put_resize)
  have wp: "well_placed h nb" using nb(1) assms(2) pos by (rule rehash_fresh_well_placed)
  have inv': "invar h ?t'" using wp nb(2) pos by (auto simp: invar_def)
  have "\<forall>k v. Search h t k = Inr (Some v) \<longrightarrow> Search h ?t' k = Inr (Some v)"
  proof (intro allI impI)
    fix k v assume s: "Search h t k = Inr (Some v)"
    then have "k \<noteq> key" using assms(4) by auto
    moreover have "scan (concat (buckets t)) k = Some v"
      using s Search_concat[OF inv assms(2), of k] by simp
    ultimately have "scan (concat nb) k = Some v"
      using rehash_fresh_scan[OF nb(1) assms(2) pos, of k] pb(3)[of k] by simp
    then show "Search h ?t' k = Inr (Some v)"
      using Search_concat[OF inv' assms(2), of k] by simp
  qed
  moreover have "mset (concat (buckets ?t')) = add_mset (key, val) (mset (concat (buckets t)))"
    using nb(3) pb(4) by simp
  ultimately show ?thesis using p wp nb(2) by (simp add: capacity_def)
qed

theorem resize_on_threshold_witness:
  "\<exists>t'. Put sample_hash 2 \<lparr>load_factor = Finite (1/2), num_keys = 1, buckets = [[], [(1, ''a'')], [], []]\<rparr> 2 ''b''
           = Inr t' \<and> capacity t' = 8 \<and> well_placed sample_hash (buckets t')
         \<and> mset (concat (buckets t')) = {#(2, ''b''), (1, ''a'')#}
         \<and> Search sample_hash t' 1 = Inr (Some ''a'')"
proof -
  let ?t = "\<lparr>load_factor = Finite (1/2), num_keys = 1, buckets = [[], [(1, ''a'')], [], []]\<rparr>"
  have s: "Search sample_hash ?t 1 = Inr (Some ''a'')"
    by (simp add: Search_def hash_def in_range_def sample_hash_def)
  have n: "Search sample_hash ?t 2 = Inr None"
    by (simp add: Search_def hash_def in_range_def sample_hash_def)
  have thr: "double_le (load_factor ?t) (Finite (real_of_int (size_of ?t + 1) / real (capacity ?t)))"
    by (simp add: size_of_def capacity_def)
  from resize_on_threshold[OF reachable_one_key_4_half hash_ok_sample_hash _ n thr, of "''b''"]
  show ?thesis using s by (auto simp: capacity_def)
qed

subsection \<open>Capacity\<close>

lemma Put_capacity:
  "Put h g t key val = Inr t' \<Longrightarrow>
     length (buckets t') = length (buckets t) \<or> length (buckets t') = length (buckets t) * g"
  using Put_cases[of h g t key val t'] by (auto split: if_splits)

lemma reaches_capacity_mono:
  assumes "reaches h g t t'" and "0 < g"
  shows "length (buckets t) \<le> length (buckets t')"
  using assms(1)
proof (induction rule: reaches.induct)
  case start
  show ?case by simp
next
  case (after_Put u key val u')
  from Put_capacity[OF after_Put.hyps(2)] after_Put.IH assms(2) show ?case
    by (auto intro: le_trans)
next
  case (after_Remove u key r u')
  from Remove_cases[OF after_Remove.hyps(2)] after_Remove.IH show ?case by simp
qed

text \<open>
  C9. A Put that returns leaves the capacity as it was or multiplies it by the growth
  coefficient, once; a Remove that returns leaves it as it was; Search and the accessors
  are functions of the table that return no table. So, for a positive growth coefficient,
  the capacity never decreases along any sequence of Put and Remove calls.
\<close>
theorem capacity_steps:
  "(Put h g t key val = Inr t1 \<longrightarrow> capacity t1 = capacity t \<or> capacity t1 = capacity t * g)
   \<and> (Remove h t key' = Inr (r, t2) \<longrightarrow> capacity t2 = capacity t)
   \<and> (0 < g \<and> reaches h g t t3 \<longrightarrow> capacity t \<le> capacity t3)"
  using Put_capacity[of h g t key val t1] Remove_cases[of h t key' r t2]
    reaches_capacity_mono[of h g t t3]
  by (simp add: capacity_def)

theorem capacity_steps_witness:
  "Put sample_hash 2 \<lparr>load_factor = Finite (1/2), num_keys = 1, buckets = [[], [(1, ''a'')], [], []]\<rparr> 2 ''b''
     = Inr \<lparr>load_factor = Finite (1/2), num_keys = 2,
            buckets = [[], [(1, ''a'')], [(2, ''b'')], [], [], [], [], []]\<rparr>
   \<and> Remove sample_hash \<lparr>load_factor = Finite (1/2), num_keys = 1, buckets = [[], [(1, ''a'')], [], []]\<rparr> 1
     = Inr (Some ''a'', \<lparr>load_factor = Finite (1/2), num_keys = 1, buckets = [[], [], [], []]\<rparr>)
   \<and> capacity \<lparr>load_factor = Finite (1/2), num_keys = 2,
            buckets = [[], [(1, ''a'')], [(2, ''b'')], [], [], [], [], []]\<rparr>
       = capacity \<lparr>load_factor = Finite (1/2), num_keys = 1, buckets = [[], [(1, ''a'')], [], []]\<rparr> * 2
   \<and> capacity \<lparr>load_factor = Finite (1/2), num_keys = 1, buckets = [[], [], [], []]\<rparr>
       = capacity \<lparr>load_factor = Finite (1/2), num_keys = 1, buckets = [[], [(1, ''a'')], [], []]\<rparr>"
proof -
  let ?t = "\<lparr>load_factor = Finite (1/2), num_keys = 1, buckets = [[], [(1, ''a'')], [], []]\<rparr>"
  let ?t1 = "\<lparr>load_factor = Finite (1/2), num_keys = 2,
            buckets = [[], [(1, ''a'')], [(2, ''b'')], [], [], [], [], []]\<rparr>"
  let ?t2 = "\<lparr>load_factor = Finite (1/2), num_keys = 1, buckets = [[], [], [], []]\<rparr>"
  have p: "Put sample_hash 2 ?t 2 ''b'' = Inr ?t1"
    by (simp add: Put_def hash_def in_range_def sample_hash_def place_def eval_nat_numeral)
  have r: "Remove sample_hash ?t 1 = Inr (Some ''a'', ?t2)"
    by (simp add: Remove_def hash_def in_range_def sample_hash_def)
  have "reaches sample_hash 2 ?t ?t1" using reaches.after_Put[OF reaches.start p] .
  then show ?thesis
    using capacity_steps[of sample_hash 2 ?t 2 "''b''" ?t1 1 "Some ''a''" ?t2 ?t1] p r
    by (simp add: capacity_def)
qed

subsection \<open>The threshold after an insertion\<close>

text \<open>
  C3 as stated fails: a table constructed with capacity 1 and load factor 1/4 (growth
  coefficient 2) does not contain the key 1; Put of that key grows the table once, to
  capacity 2, and returns with size / capacity = 1/2, which is not below 1/4.
\<close>
theorem threshold_after_put_counterexample:
  "HashTable_new 1 (Finite (1/4)) = Inr \<lparr>load_factor = Finite (1/4), num_keys = 0, buckets = [[]]\<rparr>
   \<and> Search sample_hash \<lparr>load_factor = Finite (1/4), num_keys = 0, buckets = [[]]\<rparr> 1 = Inr None
   \<and> Put sample_hash 2 \<lparr>load_factor = Finite (1/4), num_keys = 0, buckets = [[]]\<rparr> 1 ''a''
       = Inr \<lparr>load_factor = Finite (1/4), num_keys = 1, buckets = [[], [(1, ''a'')]]\<rparr>
   \<and> \<not> double_less
         (Finite (real_of_int (size_of \<lparr>load_factor = Finite (1/4), num_keys = 1, buckets = [[], [(1, ''a'')]]\<rparr>)
            / real (capacity \<lparr>load_factor = Finite (1/4), num_keys = 1, buckets = [[], [(1, ''a'')]]\<rparr>)))
         (load_factor \<lparr>load_factor = Finite (1/4), num_keys = 1, buckets = [[], [(1, ''a'')]]\<rparr>)"
  by (simp add: HashTable_new_def initial_num_keys_def Search_def Put_def hash_def in_range_def sample_hash_def
      place_def size_of_def capacity_def eval_nat_numeral)

lemma Put_Inr_in_range: "Put h g t key val = Inr t' \<Longrightarrow> in_range (buckets t) (hash h t key)"
  by (auto simp: Put_def Let_def split: if_splits)

text \<open>
  One growth step is enough when the table was over no threshold before, the growth
  coefficient is at least 2 and the initial capacity \<open>len0\<close> satisfies
  \<open>len0 * x * g > 1\<close>.
\<close>

lemma grow_restores:
  fixes n :: int and len len0 g :: nat and x :: real
  assumes "0 \<le> n" and "real_of_int n / real len < x" and "0 < len0" and "len0 \<le> len"
    and "0 < x" and "2 \<le> g" and "1 < real len0 * x * real g"
  shows "real_of_int (n + 1) / real (len * g) < x"
proof -
  have len: "0 < real len" using assms(3,4) by simp
  have g: "2 \<le> real g" using assms(6) by simp
  have xl: "0 < x * real len" using assms(5) len by simp
  have n: "real_of_int n < x * real len" using assms(2) len by (simp add: pos_divide_less_eq)
  have "real_of_int n + 1 < x * real len * real g"
  proof (cases "1 \<le> x * real len")
    case True
    have "real_of_int n + 1 < x * real len + x * real len" using n True by linarith
    also have "\<dots> = x * real len * 2" by simp
    also have "\<dots> \<le> x * real len * real g" using g xl by (simp only: mult_left_mono less_imp_le)
    finally show ?thesis .
  next
    case False
    then have "real_of_int n < 1" using n by linarith
    then have "n = 0" using assms(1) by linarith
    moreover have "real len0 * x \<le> real len * x" using assms(4,5) by (simp add: mult_right_mono)
    then have "real len0 * x * real g \<le> real len * x * real g" by (simp add: mult_right_mono)
    ultimately show ?thesis using assms(7) by (simp add: mult.commute)
  qed
  then have "real_of_int (n + 1) < x * real (len * g)" by (simp add: mult.assoc)
  moreover have "0 < real (len * g)" using len g by simp
  ultimately show ?thesis by (simp only: pos_divide_less_eq)
qed

lemma reaches_threshold:
  assumes "reaches h g t0 t"
    and "load_factor t0 = Finite x" and "num_keys t0 = 0" and "buckets t0 \<noteq> []"
    and "0 < x" and "2 \<le> g" and "1 < real (length (buckets t0)) * x * real g"
  shows "load_factor t = Finite x \<and> length (buckets t0) \<le> length (buckets t) \<and> 0 \<le> num_keys t
           \<and> real_of_int (num_keys t) / real (length (buckets t)) < x"
  using assms(1)
proof (induction rule: reaches.induct)
  case start
  show ?case using assms(2,3,5) by simp
next
  case (after_Put t key val t')
  then have lf: "load_factor t = Finite x" and len: "length (buckets t0) \<le> length (buckets t)"
    and nn: "0 \<le> num_keys t"
    and thr: "real_of_int (num_keys t) / real (length (buckets t)) < x" by simp_all
  have pos0: "0 < length (buckets t0)" using assms(4) by simp
  note gr = grow_restores[OF nn thr pos0 len assms(5,6,7)]
  note pc = Put_cases[OF after_Put.hyps(2)]
  show ?case
  proof (cases "scan (buckets t ! nat (hash h t key)) key \<noteq> None")
    case True
    then show ?thesis using pc lf len nn thr by simp
  next
    case new: False
    show ?thesis
    proof (cases "double_le (load_factor t) (Finite (real_of_int (num_keys t + 1) / real (length (buckets t))))")
      case True
      then have "num_keys t' = num_keys t + 1" "length (buckets t') = length (buckets t) * g"
        "load_factor t' = load_factor t"
        using pc new by simp_all
      moreover have "length (buckets t0) \<le> length (buckets t) * g"
      proof -
        have "length (buckets t) * 1 \<le> length (buckets t) * g"
          using assms(6) by (intro mult_le_mono2) simp
        then have "length (buckets t) \<le> length (buckets t) * g" by (simp only: mult_1_right)
        with len show ?thesis by (rule le_trans)
      qed
      ultimately show ?thesis using gr lf nn by simp
    next
      case False
      then have "num_keys t' = num_keys t + 1" "length (buckets t') = length (buckets t)"
        "load_factor t' = load_factor t"
        using pc new by simp_all
      then show ?thesis using False lf len nn by simp
    qed
  qed
next
  case (after_Remove t key r t')
  then show ?case using Remove_cases[OF after_Remove.hyps(2)] by simp
qed

text \<open>
  The bound is sharp: when capacity * load factor * growth coefficient is at most 1, the
  first Put on the constructed table already returns at or over the threshold.
\<close>

lemma first_Put_over_threshold:
  assumes "HashTable_new c (Finite x) = Inr t0" and "0 < g"
    and "real_of_int c * x * real g \<le> 1"
    and "Put h g t0 key val = Inr t'"
  shows "\<not> double_less (Finite (real_of_int (size_of t') / real (capacity t'))) (load_factor t')"
proof -
  note new = HashTable_new_Inr[OF assms(1)]
  have c: "0 < c" and x: "0 < x" using new(1,2) by simp_all
  have t0: "num_keys t0 = 0" "buckets t0 = replicate (nat c) []" "load_factor t0 = Finite x"
    using new(3) by simp_all
  have "nat (hash h t0 key) < length (buckets t0)"
    using Put_Inr_in_range[OF assms(4)] in_range_nat by blast
  then have "scan (buckets t0 ! nat (hash h t0 key)) key = None" using t0(2) by simp
  with Put_cases[OF assms(4)] t0 have lf: "load_factor t' = Finite x" and n: "num_keys t' = 1"
    and len: "if x \<le> 1 / real (nat c) then length (buckets t') = nat c * g
              else length (buckets t') = nat c"
    by simp_all
  have cx: "0 < real_of_int c * x" using c x by simp
  have g1: "1 \<le> real g" using assms(2) by simp
  have "real_of_int c * x * 1 \<le> real_of_int c * x * real g"
    using cx g1 by (simp only: mult_left_mono less_imp_le)
  then have "real_of_int c * x \<le> 1" using assms(3) by simp
  then have "x \<le> 1 / real_of_int c" using c by (simp add: pos_le_divide_eq mult.commute)
  then have "x \<le> 1 / real (nat c)" using c by simp
  then have len': "length (buckets t') = nat c * g" using len by simp
  have "x * (real_of_int c * real g) \<le> 1" using assms(3) by (simp add: mult.commute mult.left_commute)
  moreover have "0 < real_of_int c * real g" using c assms(2) by simp
  ultimately have "x \<le> 1 / (real_of_int c * real g)" by (simp only: pos_le_divide_eq)
  then show ?thesis using lf n len' c by (simp add: size_of_def capacity_def)
qed

text \<open>
  C3, amended. When the growth coefficient is at least 2 and the table was constructed
  with capacity * load factor * growth coefficient above 1, every Put on a reachable
  table returns with size / capacity below the load factor.
\<close>

theorem threshold_after_put:
  assumes "reachable h g c (Finite x) t" and "hash_ok h" and "2 \<le> g"
    and "1 < real_of_int c * x * real g"
  shows "\<exists>t'. Put h g t key val = Inr t'
           \<and> double_less (Finite (real_of_int (size_of t') / real (capacity t'))) (load_factor t')"
proof -
  from assms(1) obtain t0 where t0: "HashTable_new c (Finite x) = Inr t0" "reaches h g t0 t"
    by (auto simp: reachable_def)
  note new = HashTable_new_Inr[OF t0(1)]
  have b: "load_factor t0 = Finite x" "num_keys t0 = 0" "buckets t0 \<noteq> []" "0 < x"
    using new by auto
  have b': "1 < real (length (buckets t0)) * x * real g"
    using new assms(4) by simp
  have g: "0 < g" using assms(3) by simp
  have "invar h t" using assms(1,2) g by (rule reachable_invar)
  from Put_correct[OF this assms(2) g, of key val]
  obtain t' where t': "Put h g t key val = Inr t'" by blast
  then have "reaches h g t0 t'" using t0(2) by (rule reaches.after_Put[rotated])
  from reaches_threshold[OF this b assms(3) b'] t' show ?thesis
    by (auto simp: size_of_def capacity_def)
qed

theorem threshold_after_put_witness:
  "\<exists>t'. Put sample_hash 2 \<lparr>load_factor = Finite (1/2), num_keys = 1, buckets = [[], [(1, ''a'')], [], []]\<rparr> 2 ''b''
           = Inr t'
         \<and> double_less (Finite (real_of_int (size_of t') / real (capacity t'))) (load_factor t')"
proof -
  have g: "(2::nat) \<le> 2" by simp
  have "(1::real) < real_of_int 4 * (1/2) * real 2" by simp
  from threshold_after_put[OF reachable_one_key_4_half hash_ok_sample_hash g this, of 2 "''b''"]
  show ?thesis .
qed

subsection \<open>Remove and the key counter\<close>

text \<open>
  C1. Remove does not touch \<^verbatim>\<open>num_keys_\<close> (see \<open>Remove_cases\<close>): on a table
  constructed with capacity 5 and load factor 1/2, after Put(1, "a"), Put(2, "b") and
  Remove(1), which returns "a" and erases the pair, the size is still 2.
\<close>
theorem remove_leaves_size:
  "HashTable_new 5 (Finite (1/2)) = Inr \<lparr>load_factor = Finite (1/2), num_keys = 0, buckets = [[], [], [], [], []]\<rparr>
   \<and> Put sample_hash 2 \<lparr>load_factor = Finite (1/2), num_keys = 0, buckets = [[], [], [], [], []]\<rparr> 1 ''a''
       = Inr \<lparr>load_factor = Finite (1/2), num_keys = 1, buckets = [[], [(1, ''a'')], [], [], []]\<rparr>
   \<and> Put sample_hash 2 \<lparr>load_factor = Finite (1/2), num_keys = 1, buckets = [[], [(1, ''a'')], [], [], []]\<rparr> 2 ''b''
       = Inr \<lparr>load_factor = Finite (1/2), num_keys = 2, buckets = [[], [(1, ''a'')], [(2, ''b'')], [], []]\<rparr>
   \<and> Remove sample_hash
         \<lparr>load_factor = Finite (1/2), num_keys = 2, buckets = [[], [(1, ''a'')], [(2, ''b'')], [], []]\<rparr> 1
       = Inr (Some ''a'', \<lparr>load_factor = Finite (1/2), num_keys = 2, buckets = [[], [], [(2, ''b'')], [], []]\<rparr>)
   \<and> size_of \<lparr>load_factor = Finite (1/2), num_keys = 2, buckets = [[], [], [(2, ''b'')], [], []]\<rparr> = 2"
  by (simp add: HashTable_new_def initial_num_keys_def Put_def Remove_def hash_def in_range_def sample_hash_def
      size_of_def eval_nat_numeral)

text \<open>
  C2. After Put(1, "a") and Remove(1) on a table constructed with capacity 4 and load
  factor 1/2, the size is 1 while the buckets hold no pair, \<^verbatim>\<open>keys()\<close> has no element
  and \<^verbatim>\<open>values()\<close> has no element.
\<close>
theorem size_exceeds_entries:
  "HashTable_new 4 (Finite (1/2)) = Inr \<lparr>load_factor = Finite (1/2), num_keys = 0, buckets = [[], [], [], []]\<rparr>
   \<and> Put sample_hash 2 \<lparr>load_factor = Finite (1/2), num_keys = 0, buckets = [[], [], [], []]\<rparr> 1 ''a''
       = Inr \<lparr>load_factor = Finite (1/2), num_keys = 1, buckets = [[], [(1, ''a'')], [], []]\<rparr>
   \<and> Remove sample_hash \<lparr>load_factor = Finite (1/2), num_keys = 1, buckets = [[], [(1, ''a'')], [], []]\<rparr> 1
       = Inr (Some ''a'', \<lparr>load_factor = Finite (1/2), num_keys = 1, buckets = [[], [], [], []]\<rparr>)
   \<and> size_of \<lparr>load_factor = Finite (1/2), num_keys = 1, buckets = [[], [], [], []]\<rparr> = 1
   \<and> length (concat (buckets \<lparr>load_factor = Finite (1/2), num_keys = 1, buckets = [[], [], [], []]\<rparr>)) = 0
   \<and> card (keys \<lparr>load_factor = Finite (1/2), num_keys = 1, buckets = [[], [], [], []]\<rparr>) = 0
   \<and> length (values_of \<lparr>load_factor = Finite (1/2), num_keys = 1, buckets = [[], [], [], []]\<rparr>) = 0"
  by (simp add: HashTable_new_def initial_num_keys_def Put_def Remove_def hash_def in_range_def sample_hash_def
      size_of_def keys_def values_of_def eval_nat_numeral)

end
